theory Spec2Isabelle
  imports Complex_Main
begin

section \<open>The log to WiGLE CSV converter\<close>

text \<open>
  The development embeds \<^verbatim>\<open>convert_to_wigle_csv\<close> of \<^verbatim>\<open>src/log_csvv2.py\<close>.
  The function is a single pass over a CSV reader with side effects on two files and on
  the status stream, all wrapped in one \<^verbatim>\<open>try ... except Exception\<close>. The embedding
  makes the effects explicit:

  \<^item> the environment of one call is a record \<open>world\<close>: what \<^verbatim>\<open>os.path.getsize\<close>
    answers, whether each \<^verbatim>\<open>open\<close> raises, what the CSV reader yields item by item
    (a record, or an exception), what \<^verbatim>\<open>infile.tell()\<close> answers and whether a
    \<^verbatim>\<open>writer.writerow\<close> call raises;
  \<^item> the state of the loop is a record \<open>run_state\<close>: the two local variables
    \<^verbatim>\<open>processed\<close> and \<^verbatim>\<open>last_printed_pct\<close>, the records that reached the output file
    and the messages printed so far;
  \<^item> an exception is a value: the loop returns \<open>Some msg\<close> together with the state at
    the moment of the raise, so that what was written before the raise stays visible;
  \<^item> Python's floats are exact rationals here (type \<open>rat\<close>): rounding is not modelled.

  The standard library is not part of the repository. The CSV reader and the text
  decoder are represented by what they deliver (the field \<open>reader\<close>), the CSV writer by
  the record it is given, and the four \<^verbatim>\<open>os.path\<close> functions by their POSIX
  implementation (module \<^verbatim>\<open>posixpath\<close>), transcribed below.
\<close>

subsection \<open>Path functions of \<^verbatim>\<open>os.path\<close> (POSIX flavour)\<close>

text \<open>\<^verbatim>\<open>s.rfind(c)\<close>: the index of the last occurrence of \<open>c\<close>, or \<open>-1\<close>.\<close>

fun rfind :: "string \<Rightarrow> char \<Rightarrow> int" where
  "rfind [] c = -1"
| "rfind (x # xs) c =
     (let r = rfind xs c in if 0 \<le> r then r + 1 else if x = c then 0 else -1)"

text \<open>\<^verbatim>\<open>s.rstrip(c)\<close> for a single character.\<close>

definition rstrip :: "char \<Rightarrow> string \<Rightarrow> string" where
  "rstrip c s = rev (dropWhile (\<lambda>x. x = c) (rev s))"

text \<open>\<^verbatim>\<open>i = p.rfind('/') + 1; return p[i:]\<close>\<close>

definition basename :: "string \<Rightarrow> string" where
  "basename p = (let i = rfind p CHR ''/'' + 1 in drop (nat i) p)"

text \<open>
  \<^verbatim>\<open>i = p.rfind('/') + 1; head = p[:i]\<close>, then
  \<^verbatim>\<open>if head and head != '/' * len(head): head = head.rstrip('/')\<close>.
\<close>

definition dirname :: "string \<Rightarrow> string" where
  "dirname p =
     (let i = rfind p CHR ''/'' + 1;
          head = take (nat i) p
      in if head \<noteq> [] \<and> head \<noteq> replicate (length head) CHR ''/''
         then rstrip CHR ''/'' head else head)"

text \<open>
  The loop of \<^verbatim>\<open>genericpath._splitext\<close> that skips the leading dots of the file name:
  it answers whether some character in \<open>[filenameIndex, dotIndex)\<close> is not a dot.
\<close>

function skip_leading_dots :: "string \<Rightarrow> int \<Rightarrow> int \<Rightarrow> bool" where
  "skip_leading_dots p filenameIndex dotIndex =
     (if filenameIndex < dotIndex
      then (if take 1 (drop (nat filenameIndex) p) \<noteq> ''.'' then True
            else skip_leading_dots p (filenameIndex + 1) dotIndex)
      else False)"
  by pat_completeness auto
termination
  by (relation "measure (\<lambda>(p, f, d). nat (d - f))") auto

declare skip_leading_dots.simps [simp del]

definition splitext :: "string \<Rightarrow> string \<times> string" where
  "splitext p =
     (let sepIndex = rfind p CHR ''/'';
          dotIndex = rfind p CHR ''.''
      in if sepIndex < dotIndex \<and> skip_leading_dots p (sepIndex + 1) dotIndex
         then (take (nat dotIndex) p, drop (nat dotIndex) p)
         else (p, []))"

text \<open>\<^verbatim>\<open>posixpath.join(a, b)\<close> for two components.\<close>

definition join :: "string \<Rightarrow> string \<Rightarrow> string" where
  "join a b =
     (if take 1 b = ''/'' then b
      else if a = [] \<or> (a \<noteq> [] \<and> last a = CHR ''/'') then a @ b
      else a @ ''/'' @ b)"

text \<open>Lines 56 and 57: the output path.\<close>

definition output_file :: "string \<Rightarrow> string" where
  "output_file file_path =
     (let base_name = fst (splitext (basename file_path))
      in join (dirname file_path) (base_name @ ''.wigle.csv''))"

subsection \<open>Environment, state and messages\<close>

type_synonym row = "string list"

text \<open>
  What one call can observe. An exception is represented by its message
  (\<^verbatim>\<open>str(exc)\<close>).

  \<^item> \<open>getsize\<close>: the answer of \<^verbatim>\<open>os.path.getsize(file_path)\<close>, \<open>Inl\<close> when it raises;
  \<^item> \<open>open_input\<close>, \<open>open_output\<close>: \<open>Some msg\<close> when the \<^verbatim>\<open>open\<close> raises;
  \<^item> \<open>reader\<close>: the items \<^verbatim>\<open>for row in reader\<close> receives, in order; \<open>Inr r\<close> is a
    record, \<open>Inl msg\<close> an exception raised while reading or parsing; the end of the
    list is the end of the input;
  \<^item> \<open>tell_raises i\<close>, \<open>position i\<close>: after \<open>i\<close> records were delivered,
    \<^verbatim>\<open>infile.tell()\<close> raises, or returns the number of bytes consumed;
  \<^item> \<open>writerow_raises k\<close>: the \<^verbatim>\<open>writer.writerow\<close> call made when the output file
    holds \<open>k\<close> records raises (\<open>k = 0\<close> is the header).
\<close>

record world =
  getsize :: "string + nat"
  open_input :: "string option"
  open_output :: "string option"
  reader :: "(string + row) list"
  tell_raises :: "nat \<Rightarrow> string option"
  position :: "nat \<Rightarrow> nat"
  writerow_raises :: "nat \<Rightarrow> string option"

text \<open>The lines printed on the status stream, by the \<^verbatim>\<open>print\<close> call that makes them.\<close>

datatype message =
    Starting string string
  | Progress nat rat
  | ClearLine
  | Summary nat rat
  | ErrorMsg string

record run_state =
  processed :: nat
  last_printed_pct :: rat
  outfile :: "row list"
  stdout :: "message list"

text \<open>What a call leaves behind: the value returned, the records of the output file
  (\<open>None\<close> when this call never opened it) and the messages printed.\<close>

record outcome =
  returned :: "string option"
  output_content :: "row list option"
  printed :: "message list"

subsection \<open>The conversion\<close>

definition HEADER :: row where
  "HEADER = [''MAC'', ''SSID'', ''AuthMode'', ''FirstSeen'', ''Channel'', ''RSSI'',
             ''CurrentLatitude'', ''CurrentLongitude'']"

definition tell :: "world \<Rightarrow> nat \<Rightarrow> string + nat" where
  "tell w i = (case tell_raises w i of Some e \<Rightarrow> Inl e | None \<Rightarrow> Inr (position w i))"

text \<open>\<^verbatim>\<open>writer.writerow(r)\<close>: the record is appended to the file, or the call raises and
  the file is as before.\<close>

definition writerow :: "world \<Rightarrow> row \<Rightarrow> run_state \<Rightarrow> string + run_state" where
  "writerow w r st =
     (case writerow_raises w (length (outfile st)) of
        Some e \<Rightarrow> Inl e
      | None \<Rightarrow> Inr (st\<lparr>outfile := outfile st @ [r]\<rparr>))"

text \<open>Line 83, the tuple assignment \<^verbatim>\<open>mac, ssid, ..., lon = row[:8]\<close>: it raises
  \<^verbatim>\<open>ValueError\<close> unless the slice has exactly eight elements.\<close>

fun unpack8 :: "row \<Rightarrow> string + row" where
  "unpack8 [mac, ssid, authmode, firstseen, channel, rssi, lat, lon] =
     Inr [mac, ssid, authmode, firstseen, channel, rssi, lat, lon]"
| "unpack8 _ = Inl ''not enough values to unpack''"

text \<open>Lines 88 to 93: the percentage of a progress update, after \<open>i\<close> records were read.
  \<^verbatim>\<open>if total_bytes and total_bytes > 0\<close> is false for \<^verbatim>\<open>None\<close> and for \<open>0\<close>.\<close>

definition progress_pct :: "world \<Rightarrow> nat option \<Rightarrow> nat \<Rightarrow> rat" where
  "progress_pct w total_bytes i =
     (case total_bytes of
        None \<Rightarrow> 0
      | Some t \<Rightarrow>
          if 0 < t
          then (case tell w i of
                  Inl e \<Rightarrow> 0
                | Inr b \<Rightarrow> min 100 (of_nat b / of_nat t * 100))
          else 0)"

text \<open>Lines 101 to 107: the percentage of the final summary.\<close>

definition final_pct :: "world \<Rightarrow> nat option \<Rightarrow> nat \<Rightarrow> rat" where
  "final_pct w total_bytes i =
     (case total_bytes of
        None \<Rightarrow> 100
      | Some t \<Rightarrow>
          if 0 < t
          then (case tell w i of
                  Inl e \<Rightarrow> 100
                | Inr b \<Rightarrow> min 100 (of_nat b / of_nat t * 100))
          else 100)"

text \<open>Lines 81 to 98: the body of the loop for one record, the \<open>i\<close>-th the reader
  delivered. The result is the exception raised, if any, and the state.\<close>

definition process_row ::
  "world \<Rightarrow> nat option \<Rightarrow> nat \<Rightarrow> row \<Rightarrow> run_state \<Rightarrow> string option \<times> run_state" where
  "process_row w total_bytes i r st =
     (if length r < 8 then (None, st)
      else
        (case unpack8 (take 8 r) of
           Inl e \<Rightarrow> (Some e, st)
         | Inr vals \<Rightarrow>
             (case writerow w vals st of
                Inl e \<Rightarrow> (Some e, st)
              | Inr st1 \<Rightarrow>
                  (let st2 = st1\<lparr>processed := processed st1 + 1\<rparr> in
                   if processed st2 mod 500 = 0
                   then
                     (let pct = progress_pct w total_bytes i in
                      if 1 / 10 \<le> \<bar>pct - last_printed_pct st2\<bar> \<or> last_printed_pct st2 < 0
                      then (None, st2\<lparr>stdout := stdout st2 @ [Progress (processed st2) pct],
                                      last_printed_pct := pct\<rparr>)
                      else (None, st2))
                   else (None, st2)))))"

text \<open>Line 80: the loop. \<open>i\<close> counts the records delivered so far.\<close>

fun loop ::
  "world \<Rightarrow> nat option \<Rightarrow> nat \<Rightarrow> (string + row) list \<Rightarrow> run_state \<Rightarrow> string option \<times> run_state"
where
  "loop w total_bytes i [] st = (None, st)"
| "loop w total_bytes i (Inl e # rest) st = (Some e, st)"
| "loop w total_bytes i (Inr r # rest) st =
     (case process_row w total_bytes (Suc i) r st of
        (Some e, st') \<Rightarrow> (Some e, st')
      | (None, st') \<Rightarrow> loop w total_bytes (Suc i) rest st')"

text \<open>Lines 113 to 115: the handler prints the diagnostic and returns \<^verbatim>\<open>None\<close>; it
  does nothing to the output file.\<close>

definition handler :: "string \<Rightarrow> row list option \<Rightarrow> message list \<Rightarrow> outcome" where
  "handler exc content out =
     \<lparr>returned = None, output_content = content, printed = out @ [ErrorMsg exc]\<rparr>"

text \<open>Lines 51 to 117. Opening the output with mode \<^verbatim>\<open>"w"\<close> creates or truncates it,
  so from then on the file exists, empty until the header is written. The input is
  opened first: when that raises, the output file is not touched.\<close>

definition convert_to_wigle_csv :: "world \<Rightarrow> string \<Rightarrow> outcome" where
  "convert_to_wigle_csv w file_path =
     (let total_bytes = (case getsize w of Inl e \<Rightarrow> None | Inr n \<Rightarrow> Some n);
          out0 = [Starting file_path (output_file file_path)]
      in case open_input w of
           Some e \<Rightarrow> handler e None out0
         | None \<Rightarrow>
             (case open_output w of
                Some e \<Rightarrow> handler e None out0
              | None \<Rightarrow>
                  (let st0 = \<lparr>processed = 0, last_printed_pct = -1, outfile = [], stdout = out0\<rparr>
                   in case writerow w HEADER st0 of
                        Inl e \<Rightarrow> handler e (Some []) out0
                      | Inr st1 \<Rightarrow>
                          (case loop w total_bytes 0 (reader w) st1 of
                             (Some e, st) \<Rightarrow> handler e (Some (outfile st)) (stdout st)
                           | (None, st) \<Rightarrow>
                               \<lparr>returned = Some (output_file file_path),
                                output_content = Some (outfile st),
                                printed = stdout st @
                                  [ClearLine,
                                   Summary (processed st)
                                     (final_pct w total_bytes (length (reader w)))]\<rparr>))))"

subsection \<open>Notions used to state the properties\<close>

text \<open>The records the reader delivers before its first exception.\<close>

fun delivered :: "(string + row) list \<Rightarrow> row list" where
  "delivered [] = []"
| "delivered (Inl e # rest) = []"
| "delivered (Inr r # rest) = r # delivered rest"

text \<open>The \<^verbatim>\<open>writerow\<close> calls made while the file holds \<open>a\<close> to \<open>b - 1\<close> records
  do not raise.\<close>

definition writes_ok :: "world \<Rightarrow> nat \<Rightarrow> nat \<Rightarrow> bool" where
  "writes_ok w a b = list_all (\<lambda>k. writerow_raises w k = None) [a..<b]"

text \<open>No operation of the pass raises: both files open, the reader delivers records
  only, and each \<^verbatim>\<open>writerow\<close> the pass makes (the header and one per record of at
  least eight fields) succeeds. \<^verbatim>\<open>getsize\<close> and \<^verbatim>\<open>tell\<close> may raise: the code
  catches both on the spot.\<close>

definition no_io_failure :: "world \<Rightarrow> bool" where
  "no_io_failure w =
     (open_input w = None \<and> open_output w = None \<and>
      list_all (\<lambda>x. \<not> isl x) (reader w) \<and>
      writes_ok w 0 (Suc (length (filter (\<lambda>r. 8 \<le> length r) (delivered (reader w))))))"

text \<open>Lines 60 to 64: \<^verbatim>\<open>total_bytes\<close>, \<^verbatim>\<open>None\<close> when the size query raises.\<close>

definition total_of :: "world \<Rightarrow> nat option" where
  "total_of w = (case getsize w of Inl e \<Rightarrow> None | Inr n \<Rightarrow> Some n)"

text \<open>The state when the loop starts: the header is in the file, the counter is 0 and
  \<^verbatim>\<open>last_printed_pct\<close> holds its initial \<open>-1.0\<close>.\<close>

definition after_header :: "string \<Rightarrow> run_state" where
  "after_header file_path =
     \<lparr>processed = 0, last_printed_pct = -1, outfile = [HEADER],
      stdout = [Starting file_path (output_file file_path)]\<rparr>"







text \<open>The bytes of the output file, for any way \<open>render\<close> the CSV writer formats one
  record: the writer is not part of the repository, and its output for a record depends
  on the record alone.\<close>

definition file_bytes :: "(row \<Rightarrow> string) \<Rightarrow> row list \<Rightarrow> string" where
  "file_bytes render rows = concat (map render rows)"

subsection \<open>Example runs\<close>

text \<open>Three records: a complete one, the example of the specification; one of five fields;
  one of ten fields, with a comma inside a field.\<close>

definition demo_rows :: "row list" where
  "demo_rows =
     [[''AA:BB:CC:DD:EE:FF'', ''MyWifi'', ''WPA2'', ''2023-01-01 10:00:00'', ''6'', ''-50'',
       ''12.34'', ''56.78''],
      [''a'', ''b'', ''c'', ''d'', ''e''],
      [''11:22:33:44:55:66'', ''Cafe, upstairs'', ''WEP'', ''2023-01-02 11:30:00'', ''11'',
       ''-71'', ''48.85'', ''2.35'', ''extra'', ''more'']]"

text \<open>A run on these three records where nothing raises.\<close>

definition demo_world :: world where
  "demo_world =
     \<lparr>getsize = Inr 200, open_input = None, open_output = None,
      reader = map Inr demo_rows,
      tell_raises = (\<lambda>i. None), position = (\<lambda>i. 60 * i),
      writerow_raises = (\<lambda>k. None)\<rparr>"

text \<open>The same input, when the size query and every position query raise.\<close>

definition blind_world :: world where
  "blind_world =
     demo_world\<lparr>getsize := Inl ''Permission denied'',
                tell_raises := (\<lambda>i. Some ''telling position disabled by next() call'')\<rparr>"







section \<open>Properties\<close>

subsection \<open>The output path\<close>

lemma rfind_absent: "c \<notin> set s \<Longrightarrow> rfind s c = -1"
  by (induction s) (auto simp: Let_def)

lemma rfind_last: "c \<notin> set ys \<Longrightarrow> rfind (xs @ c # ys) c = int (length xs)"
  by (induction xs) (auto simp: Let_def rfind_absent)

lemma rfind_cases:
  "(c \<notin> set s \<and> rfind s c = -1) \<or>
   (\<exists>xs ys. s = xs @ c # ys \<and> c \<notin> set ys \<and> rfind s c = int (length xs))"
proof (cases "c \<in> set s")
  case False
  then show ?thesis by (simp add: rfind_absent)
next
  case True
  then obtain xs ys where "s = xs @ c # ys" "c \<notin> set ys"
    by (meson split_list_last)
  then show ?thesis using rfind_last by blast
qed

lemma nat_int_Suc: "nat (int n + 1) = Suc n"
  by simp

lemma basename_after_sep:
  "CHR ''/'' \<notin> set name \<Longrightarrow> basename (d @ CHR ''/'' # name) = name"
  by (simp add: basename_def rfind_last nat_int_Suc)

lemma basename_bare: "CHR ''/'' \<notin> set name \<Longrightarrow> basename name = name"
  by (simp add: basename_def rfind_absent)

lemma basename_no_sep: "CHR ''/'' \<notin> set (basename p)"
  using rfind_cases [of "CHR ''/''" p] basename_after_sep basename_bare
  by metis

lemma skip_leading_dots_iff:
  "0 \<le> f \<Longrightarrow> d \<le> int (length p) \<Longrightarrow>
   skip_leading_dots p f d \<longleftrightarrow> (\<exists>j. nat f \<le> j \<and> int j < d \<and> p ! j \<noteq> CHR ''.'')"
proof (induction p f d rule: skip_leading_dots.induct)
  case (1 p f d)
  show ?case
  proof (cases "f < d")
    case False
    then show ?thesis
      using "1.prems" by (subst skip_leading_dots.simps) auto
  next
    case lt: True
    then have len: "nat f < length p" using "1.prems" by linarith
    then have tk: "take 1 (drop (nat f) p) = [p ! nat f]"
      by (simp add: take_Suc_conv_app_nth Cons_nth_drop_Suc [symmetric] One_nat_def)
    show ?thesis
    proof (cases "p ! nat f = CHR ''.''")
      case False
      then show ?thesis
        using lt tk "1.prems"
        by (subst skip_leading_dots.simps) (auto intro!: exI [of _ "nat f"])
    next
      case dot: True
      have ih: "skip_leading_dots p (f + 1) d \<longleftrightarrow>
                (\<exists>j. nat (f + 1) \<le> j \<and> int j < d \<and> p ! j \<noteq> CHR ''.'')"
        using "1.IH" lt tk dot "1.prems" by simp
      have "(\<exists>j. nat (f + 1) \<le> j \<and> int j < d \<and> p ! j \<noteq> CHR ''.'') \<longleftrightarrow>
            (\<exists>j. nat f \<le> j \<and> int j < d \<and> p ! j \<noteq> CHR ''.'')"
      proof
        assume "\<exists>j. nat (f + 1) \<le> j \<and> int j < d \<and> p ! j \<noteq> CHR ''.''"
        then obtain j where "nat (f + 1) \<le> j" "int j < d" "p ! j \<noteq> CHR ''.''" by blast
        then show "\<exists>j. nat f \<le> j \<and> int j < d \<and> p ! j \<noteq> CHR ''.''"
          by (intro exI [of _ j]) auto
      next
        assume "\<exists>j. nat f \<le> j \<and> int j < d \<and> p ! j \<noteq> CHR ''.''"
        then obtain j where j: "nat f \<le> j" "int j < d" "p ! j \<noteq> CHR ''.''" by blast
        with dot have "j \<noteq> nat f" by auto
        with j "1.prems" have "nat (f + 1) \<le> j" by linarith
        with j show "\<exists>j. nat (f + 1) \<le> j \<and> int j < d \<and> p ! j \<noteq> CHR ''.''" by blast
      qed
      with ih show ?thesis
        using lt tk dot by (subst skip_leading_dots.simps) simp
    qed
  qed
qed

lemma splitext_ext:
  assumes "CHR ''/'' \<notin> set (stem @ ''.'' @ ext)" "CHR ''.'' \<notin> set ext"
    "\<exists>c\<in>set stem. c \<noteq> CHR ''.''"
  shows "splitext (stem @ ''.'' @ ext) = (stem, ''.'' @ ext)"
proof -
  let ?p = "stem @ ''.'' @ ext"
  have sep: "rfind ?p CHR ''/'' = -1" using assms(1) by (intro rfind_absent)
  have dot: "rfind ?p CHR ''.'' = int (length stem)"
    using rfind_last [of "CHR ''.''" ext stem] assms(2) by simp
  obtain j where j: "j < length stem" "stem ! j \<noteq> CHR ''.''"
    using assms(3) by (auto simp: in_set_conv_nth)
  have "skip_leading_dots ?p 0 (int (length stem))"
    using j by (subst skip_leading_dots_iff) (auto simp: nth_append intro!: exI [of _ j])
  then show ?thesis
    using sep dot by (simp add: splitext_def)
qed

lemma splitext_no_dot: "CHR ''.'' \<notin> set p \<Longrightarrow> splitext p = (p, [])"
  using rfind_cases [of "CHR ''/''" p]
  by (auto simp: splitext_def rfind_absent)


lemma rstrip_sep: "d \<noteq> [] \<Longrightarrow> last d \<noteq> c \<Longrightarrow> rstrip c (d @ [c]) = d"
  by (cases d rule: rev_cases) (auto simp: rstrip_def)

lemma dirname_after_sep:
  assumes "d = [] \<or> last d \<noteq> CHR ''/''" "CHR ''/'' \<notin> set name"
  shows "dirname (d @ CHR ''/'' # name) = (if d = [] then ''/'' else d)"
proof (cases "d = []")
  case True
  then show ?thesis
    using assms(2) by (simp add: dirname_def rfind_absent)
next
  case False
  then have l: "last d \<noteq> CHR ''/''" using assms(1) by simp
  have i: "nat (rfind (d @ CHR ''/'' # name) CHR ''/'' + 1) = Suc (length d)"
    using assms(2) by (simp add: rfind_last nat_int_Suc)
  have hd: "take (Suc (length d)) (d @ CHR ''/'' # name) = d @ ''/''"
    by simp
  have "d \<noteq> replicate (length d) CHR ''/''"
    using False l by (metis last_replicate length_0_conv)
  then have ne: "d @ ''/'' \<noteq> replicate (length (d @ ''/'')) CHR ''/''"
    by (simp add: replicate_append_same [symmetric])
  show ?thesis
    unfolding dirname_def Let_def i hd
    using False ne rstrip_sep [OF False l] by simp
qed

lemma output_file_ext:
  assumes "basename p = stem @ ''.'' @ ext" "CHR ''.'' \<notin> set ext"
    "\<exists>c\<in>set stem. c \<noteq> CHR ''.''"
  shows "output_file p = join (dirname p) (stem @ ''.wigle.csv'')"
proof -
  have "CHR ''/'' \<notin> set (stem @ ''.'' @ ext)"
    using basename_no_sep [of p] assms(1) by simp
  then have "splitext (stem @ ''.'' @ ext) = (stem, ''.'' @ ext)"
    using assms(2,3) by (rule splitext_ext)
  then show ?thesis using assms(1) by (simp add: output_file_def)
qed

lemma output_file_no_dot:
  "CHR ''.'' \<notin> set (basename p) \<Longrightarrow>
   output_file p = join (dirname p) (basename p @ ''.wigle.csv'')"
  by (simp add: output_file_def splitext_no_dot)

lemma splitext_leading_dots:
  assumes "CHR ''/'' \<notin> set (dots @ ''.'' @ ext)" "CHR ''.'' \<notin> set ext"
    "set dots \<subseteq> {CHR ''.''}"
  shows "splitext (dots @ ''.'' @ ext) = (dots @ ''.'' @ ext, [])"
proof -
  let ?p = "dots @ ''.'' @ ext"
  have dot: "rfind ?p CHR ''.'' = int (length dots)"
    using rfind_last [of "CHR ''.''" ext dots] assms(2) by simp
  have "\<not> (\<exists>j. nat 0 \<le> j \<and> int j < int (length dots) \<and> ?p ! j \<noteq> CHR ''.'')"
    using assms(3) by (auto simp: nth_append subset_iff)
  then have "\<not> skip_leading_dots ?p 0 (int (length dots))"
    by (subst skip_leading_dots_iff) auto
  then show ?thesis
    using dot rfind_absent [OF assms(1)] by (simp add: splitext_def)
qed

lemma output_file_leading_dots:
  assumes "basename p = dots @ ''.'' @ ext" "CHR ''.'' \<notin> set ext" "set dots \<subseteq> {CHR ''.''}"
  shows "output_file p = join (dirname p) (basename p @ ''.wigle.csv'')"
proof -
  have "CHR ''/'' \<notin> set (dots @ ''.'' @ ext)"
    using basename_no_sep [of p] assms(1) by simp
  then have "splitext (dots @ ''.'' @ ext) = (dots @ ''.'' @ ext, [])"
    using assms(2,3) by (rule splitext_leading_dots)
  then show ?thesis using assms(1) by (simp add: output_file_def)
qed

lemma output_file_explicit:
  assumes "d = [] \<or> last d \<noteq> CHR ''/''" "CHR ''/'' \<notin> set stem" "CHR ''/'' \<notin> set ext"
    "CHR ''.'' \<notin> set ext" "\<exists>c\<in>set stem. c \<noteq> CHR ''.''"
  shows "output_file (d @ ''/'' @ stem @ ''.'' @ ext) = d @ ''/'' @ stem @ ''.wigle.csv''"
proof -
  let ?name = "stem @ ''.'' @ ext"
  have ns: "CHR ''/'' \<notin> set ?name" using assms(2,3) by simp
  have b: "basename (d @ ''/'' @ ?name) = ?name"
    using basename_after_sep [OF ns, of d] by simp
  have dn: "dirname (d @ ''/'' @ ?name) = (if d = [] then ''/'' else d)"
    using dirname_after_sep [OF assms(1) ns] by simp
  obtain c where c: "c \<in> set stem" "c \<noteq> CHR ''.''" using assms(5) by blast
  then have "stem \<noteq> []" by auto
  then have "take 1 (stem @ ''.wigle.csv'') = [hd stem]"
    by (cases stem) auto
  moreover have "hd stem \<noteq> CHR ''/''"
    using \<open>stem \<noteq> []\<close> assms(2) by (cases stem) auto
  ultimately have j: "join (if d = [] then ''/'' else d) (stem @ ''.wigle.csv'')
             = d @ ''/'' @ stem @ ''.wigle.csv''"
    using assms(1) by (auto simp: join_def)
  show ?thesis
    using output_file_ext [OF b assms(4,5)] dn j by simp
qed

text \<open>
  Claim C4. The output path is the directory of the input path joined with the base name
  of the input, its final extension removed, followed by \<^verbatim>\<open>.wigle.csv\<close>: whenever the
  base name is \<open>stem.ext\<close> with no dot in \<open>ext\<close> and \<open>stem\<close> is not made of dots only,
  only \<open>.ext\<close> is removed; a base name without a dot, or whose last dot follows nothing
  but dots (a name such as \<^verbatim>\<open>.bashrc\<close>, in which \<^verbatim>\<open>splitext\<close> sees no extension), is
  kept whole. Written out for a path \<open>d/stem.ext\<close>, the output is
  \<open>d/stem.wigle.csv\<close>; \<^verbatim>\<open>capture.log\<close> gives \<^verbatim>\<open>capture.wigle.csv\<close> and
  \<^verbatim>\<open>data.tar.csv\<close> gives \<^verbatim>\<open>data.tar.wigle.csv\<close>.
\<close>

theorem output_path_derivation:
  "(basename p = stem @ ''.'' @ ext \<and> CHR ''.'' \<notin> set ext \<and> (\<exists>c\<in>set stem. c \<noteq> CHR ''.'')
      \<longrightarrow> output_file p = join (dirname p) (stem @ ''.wigle.csv''))
   \<and> (CHR ''.'' \<notin> set (basename p)
      \<longrightarrow> output_file p = join (dirname p) (basename p @ ''.wigle.csv''))
   \<and> (basename p = dots @ ''.'' @ ext \<and> CHR ''.'' \<notin> set ext \<and> set dots \<subseteq> {CHR ''.''}
      \<longrightarrow> output_file p = join (dirname p) (basename p @ ''.wigle.csv''))
   \<and> ((d = [] \<or> last d \<noteq> CHR ''/'') \<and> CHR ''/'' \<notin> set stem \<and> CHR ''/'' \<notin> set ext
       \<and> CHR ''.'' \<notin> set ext \<and> (\<exists>c\<in>set stem. c \<noteq> CHR ''.'')
      \<longrightarrow> output_file (d @ ''/'' @ stem @ ''.'' @ ext) = d @ ''/'' @ stem @ ''.wigle.csv'')
   \<and> output_file ''capture.log'' = ''capture.wigle.csv''
   \<and> output_file ''data.tar.csv'' = ''data.tar.wigle.csv''"
proof (intro conjI impI)
  show "output_file ''capture.log'' = ''capture.wigle.csv''" by code_simp
  show "output_file ''data.tar.csv'' = ''data.tar.wigle.csv''" by code_simp
next
  assume "basename p = dots @ ''.'' @ ext \<and> CHR ''.'' \<notin> set ext \<and> set dots \<subseteq> {CHR ''.''}"
  then show "output_file p = join (dirname p) (basename p @ ''.wigle.csv'')"
    using output_file_leading_dots [of p dots ext] by blast
qed (auto simp: output_file_ext output_file_no_dot output_file_explicit simp del: append.simps)

theorem output_path_derivation_witness:
  "output_file ''/var/log/data.tar.csv'' = ''/var/log/data.tar.wigle.csv''
   \<and> basename ''/var/log/data.tar.csv'' = ''data.tar.csv''
   \<and> dirname ''/var/log/data.tar.csv'' = ''/var/log''"
proof -
  have b: "basename ''/var/log/data.tar.csv'' = ''data.tar'' @ ''.'' @ ''csv''" by code_simp
  have d: "dirname ''/var/log/data.tar.csv'' = ''/var/log''" by code_simp
  have j: "join ''/var/log'' (''data.tar'' @ ''.wigle.csv'') = ''/var/log/data.tar.wigle.csv''"
    by code_simp
  have "output_file ''/var/log/data.tar.csv''
        = join (dirname ''/var/log/data.tar.csv'') (''data.tar'' @ ''.wigle.csv'')"
    using output_path_derivation [of "''/var/log/data.tar.csv''" "''data.tar''" "''csv''"] b
    by simp
  then show ?thesis using b d j by simp
qed

subsection \<open>The loop\<close>

lemma unpack8_length: "length xs = 8 \<Longrightarrow> unpack8 xs = Inr xs"
  by (auto simp: eval_nat_numeral length_Suc_conv)

lemma unpack8_take: "8 \<le> length r \<Longrightarrow> unpack8 (take 8 r) = Inr (take 8 r)"
  by (simp add: unpack8_length)

lemma process_row_short: "length r < 8 \<Longrightarrow> process_row w tb i r st = (None, st)"
  by (simp add: process_row_def)

lemma process_row_raises:
  "8 \<le> length r \<Longrightarrow> writerow_raises w (length (outfile st)) = Some e \<Longrightarrow>
   process_row w tb i r st = (Some e, st)"
  by (simp add: process_row_def unpack8_take writerow_def)

lemma process_row_written:
  assumes "8 \<le> length r" "writerow_raises w (length (outfile st)) = None"
  shows "\<exists>st'. process_row w tb i r st = (None, st') \<and>
           outfile st' = outfile st @ [take 8 r] \<and>
           processed st' = Suc (processed st) \<and>
           (stdout st' = stdout st \<or>
            (\<exists>pct. stdout st' = stdout st @ [Progress (Suc (processed st)) pct]))"
  using assms by (simp add: process_row_def unpack8_take writerow_def Let_def)

lemma writes_ok_step:
  "writes_ok w a (Suc (a + m)) \<longleftrightarrow>
   writerow_raises w a = None \<and> writes_ok w (Suc a) (Suc a + m)"
proof -
  have "[a..<Suc (a + m)] = a # [Suc a..<Suc a + m]"
    by (simp add: upt_conv_Cons del: upt_Suc)
  then show ?thesis
    by (simp add: writes_ok_def del: upt_Suc)
qed

lemma writes_ok_empty: "writes_ok w a a"
  by (simp add: writes_ok_def)

text \<open>The loop ends without an exception exactly when no item is an exception and every
  write it makes succeeds.\<close>

lemma loop_ok_iff:
  "fst (loop w tb i xs st) = None \<longleftrightarrow>
   list_all (\<lambda>x. \<not> isl x) xs \<and>
   writes_ok w (length (outfile st))
     (length (outfile st) + length (filter (\<lambda>r. 8 \<le> length r) (delivered xs)))"
proof (induction xs arbitrary: i st)
  case Nil
  then show ?case by (simp add: writes_ok_empty)
next
  case (Cons x xs)
  show ?case
  proof (cases x)
    case (Inl e)
    then show ?thesis by simp
  next
    case (Inr r)
    show ?thesis
    proof (cases "length r < 8")
      case True
      then show ?thesis
        using Inr Cons.IH [of "Suc i" st] by (simp add: process_row_short)
    next
      case False
      then have v: "8 \<le> length r" by simp
      show ?thesis
      proof (cases "writerow_raises w (length (outfile st))")
        case (Some e)
        then show ?thesis
          using Inr v writes_ok_step [of w "length (outfile st)"]
          by (simp add: process_row_raises)
      next
        case None
        obtain st' where st': "process_row w tb (Suc i) r st = (None, st')"
          "outfile st' = outfile st @ [take 8 r]"
          using process_row_written [OF v None] by blast
        show ?thesis
          using Inr v None st' Cons.IH [of "Suc i" st']
            writes_ok_step [of w "length (outfile st)"]
          by simp
      qed
    qed
  qed
qed

text \<open>Whatever the outcome, the loop appends to the file the first eight fields of some
  first records of at least eight fields, in the order of the input.\<close>

lemma loop_outfile:
  "\<exists>n. outfile (snd (loop w tb i xs st)) =
         outfile st @ map (take 8) (take n (filter (\<lambda>r. 8 \<le> length r) (delivered xs)))"
proof (induction xs arbitrary: i st)
  case Nil
  then show ?case by simp
next
  case (Cons x xs)
  show ?case
  proof (cases x)
    case (Inl e)
    then show ?thesis by simp
  next
    case (Inr r)
    show ?thesis
    proof (cases "length r < 8")
      case True
      then show ?thesis
        using Inr Cons.IH [of "Suc i" st] by (simp add: process_row_short)
    next
      case False
      then have v: "8 \<le> length r" by simp
      show ?thesis
      proof (cases "writerow_raises w (length (outfile st))")
        case (Some e)
        then show ?thesis
          using Inr v by (simp add: process_row_raises)
      next
        case None
        obtain st' where st': "process_row w tb (Suc i) r st = (None, st')"
          "outfile st' = outfile st @ [take 8 r]"
          using process_row_written [OF v None] by blast
        obtain n where n: "outfile (snd (loop w tb (Suc i) xs st')) =
           outfile st' @ map (take 8) (take n (filter (\<lambda>r. 8 \<le> length r) (delivered xs)))"
          using Cons.IH [of "Suc i" st'] by blast
        show ?thesis
          using Inr v st' n by (intro exI [of _ "Suc n"]) simp
      qed
    qed
  qed
qed

text \<open>Without an exception, all of them are appended.\<close>

lemma loop_ok_outfile:
  "fst (loop w tb i xs st) = None \<Longrightarrow>
   outfile (snd (loop w tb i xs st)) =
     outfile st @ map (take 8) (filter (\<lambda>r. 8 \<le> length r) (delivered xs))"
proof (induction xs arbitrary: i st)
  case Nil
  then show ?case by simp
next
  case (Cons x xs)
  show ?case
  proof (cases x)
    case (Inl e)
    then show ?thesis using Cons.prems by simp
  next
    case (Inr r)
    show ?thesis
    proof (cases "length r < 8")
      case True
      then show ?thesis
        using Inr Cons.IH [of "Suc i" st] Cons.prems by (simp add: process_row_short)
    next
      case False
      then have v: "8 \<le> length r" by simp
      show ?thesis
      proof (cases "writerow_raises w (length (outfile st))")
        case (Some e)
        then show ?thesis
          using Inr v Cons.prems by (simp add: process_row_raises)
      next
        case None
        obtain st' where st': "process_row w tb (Suc i) r st = (None, st')"
          "outfile st' = outfile st @ [take 8 r]"
          using process_row_written [OF v None] by blast
        show ?thesis
          using Inr v st' Cons.IH [of "Suc i" st'] Cons.prems by simp
      qed
    qed
  qed
qed

text \<open>The counter and the file grow together.\<close>

lemma loop_counter:
  "length (outfile (snd (loop w tb i xs st))) + processed st =
   length (outfile st) + processed (snd (loop w tb i xs st))"
proof (induction xs arbitrary: i st)
  case Nil
  then show ?case by simp
next
  case (Cons x xs)
  show ?case
  proof (cases x)
    case (Inl e)
    then show ?thesis by simp
  next
    case (Inr r)
    show ?thesis
    proof (cases "length r < 8")
      case True
      then show ?thesis
        using Inr Cons.IH [of "Suc i" st] by (simp add: process_row_short)
    next
      case False
      then have v: "8 \<le> length r" by simp
      show ?thesis
      proof (cases "writerow_raises w (length (outfile st))")
        case (Some e)
        then show ?thesis
          using Inr v by (simp add: process_row_raises)
      next
        case None
        obtain st' where st': "process_row w tb (Suc i) r st = (None, st')"
          "outfile st' = outfile st @ [take 8 r]" "processed st' = Suc (processed st)"
          using process_row_written [OF v None] by blast
        show ?thesis
          using Inr v st' Cons.IH [of "Suc i" st'] by simp
      qed
    qed
  qed
qed

text \<open>An exception that leaves the loop was raised by the reader or by a write.\<close>

lemma loop_cause:
  "fst (loop w tb i xs st) = Some e \<Longrightarrow>
   Inl e \<in> set xs \<or> (\<exists>k. writerow_raises w k = Some e)"
proof (induction xs arbitrary: i st)
  case Nil
  then show ?case by simp
next
  case (Cons x xs)
  show ?case
  proof (cases x)
    case (Inl e')
    then show ?thesis using Cons.prems by simp
  next
    case (Inr r)
    show ?thesis
    proof (cases "length r < 8")
      case True
      then show ?thesis
        using Inr Cons.IH [of "Suc i" st] Cons.prems by (simp add: process_row_short)
    next
      case False
      then have v: "8 \<le> length r" by simp
      show ?thesis
      proof (cases "writerow_raises w (length (outfile st))")
        case (Some e')
        then show ?thesis
          using Inr v Cons.prems by (auto simp: process_row_raises)
      next
        case None
        obtain st' where st': "process_row w tb (Suc i) r st = (None, st')"
          using process_row_written [OF v None] by blast
        show ?thesis
          using Inr st' Cons.IH [of "Suc i" st'] Cons.prems by simp
      qed
    qed
  qed
qed










lemma loop_stdout:
  "\<exists>ps. stdout (snd (loop w tb i xs st)) = stdout st @ ps \<and>
        (\<forall>m\<in>set ps. \<exists>n pct. m = Progress n pct)"
proof (induction xs arbitrary: i st)
  case Nil
  then show ?case by simp
next
  case (Cons x xs)
  show ?case
  proof (cases x)
    case (Inl e)
    then show ?thesis by simp
  next
    case (Inr r)
    show ?thesis
    proof (cases "length r < 8")
      case True
      then show ?thesis
        using Inr Cons.IH [of "Suc i" st] by (simp add: process_row_short)
    next
      case False
      then have v: "8 \<le> length r" by simp
      show ?thesis
      proof (cases "writerow_raises w (length (outfile st))")
        case (Some e)
        then show ?thesis
          using Inr v by (simp add: process_row_raises)
      next
        case None
        obtain st' where st': "process_row w tb (Suc i) r st = (None, st')"
          "stdout st' = stdout st \<or>
            (\<exists>pct. stdout st' = stdout st @ [Progress (Suc (processed st)) pct])"
          using process_row_written [OF v None] by blast
        obtain ps where ps: "stdout (snd (loop w tb (Suc i) xs st')) = stdout st' @ ps"
          "\<forall>m\<in>set ps. \<exists>n pct. m = Progress n pct"
          using Cons.IH [of "Suc i" st'] by blast
        from st'(2) show ?thesis
        proof
          assume "stdout st' = stdout st"
          then show ?thesis using Inr st'(1) ps by auto
        next
          assume "\<exists>pct. stdout st' = stdout st @ [Progress (Suc (processed st)) pct]"
          then obtain pct where "stdout st' = stdout st @ [Progress (Suc (processed st)) pct]"
            by blast
          then show ?thesis
            using Inr st'(1) ps
            by (intro exI [of _ "Progress (Suc (processed st)) pct # ps"]) auto
        qed
      qed
    qed
  qed
qed

subsection \<open>The whole call\<close>

lemma delivered_map_Inr: "delivered (map Inr rs) = rs"
  by (induction rs) auto


lemma delivered_until_Inl: "delivered (map Inr rs @ Inl e # rest) = rs"
  by (induction rs) auto

lemma list_all_map_Inr: "list_all (\<lambda>x. \<not> isl x) (map Inr rs)"
  by (induction rs) auto

lemma convert_unfold:
  assumes "open_input w = None" "open_output w = None" "writerow_raises w 0 = None"
  shows "convert_to_wigle_csv w p =
     (case loop w (total_of w) 0 (reader w) (after_header p) of
        (Some e, st) \<Rightarrow> handler e (Some (outfile st)) (stdout st)
      | (None, st) \<Rightarrow>
          \<lparr>returned = Some (output_file p), output_content = Some (outfile st),
           printed = stdout st @
             [ClearLine,
              Summary (processed st) (final_pct w (total_of w) (length (reader w)))]\<rparr>)"
  using assms
  unfolding convert_to_wigle_csv_def total_of_def after_header_def Let_def
  by (simp add: writerow_def)

lemma no_io_failure_loop:
  "no_io_failure w \<longleftrightarrow>
   open_input w = None \<and> open_output w = None \<and> writerow_raises w 0 = None \<and>
   fst (loop w tb 0 (reader w) (after_header p)) = None"
  using writes_ok_step [of w 0 "length (filter (\<lambda>r. 8 \<le> length r) (delivered (reader w)))"]
  by (auto simp: no_io_failure_def loop_ok_iff after_header_def)

lemma convert_success:
  assumes "no_io_failure w"
  shows "\<exists>st. loop w (total_of w) 0 (reader w) (after_header p) = (None, st) \<and>
     outfile st = HEADER # map (take 8) (filter (\<lambda>r. 8 \<le> length r) (delivered (reader w))) \<and>
     processed st = length (filter (\<lambda>r. 8 \<le> length r) (delivered (reader w))) \<and>
     convert_to_wigle_csv w p =
       \<lparr>returned = Some (output_file p), output_content = Some (outfile st),
        printed = stdout st @
          [ClearLine,
           Summary (processed st) (final_pct w (total_of w) (length (reader w)))]\<rparr>"
proof -
  let ?l = "loop w (total_of w) 0 (reader w) (after_header p)"
  have ok: "open_input w = None" "open_output w = None" "writerow_raises w 0 = None"
    "fst ?l = None"
    using assms no_io_failure_loop [of w "total_of w" p] by auto
  obtain st where st: "?l = (None, st)" using ok(4) by (cases ?l) auto
  have o: "outfile st = HEADER # map (take 8) (filter (\<lambda>r. 8 \<le> length r) (delivered (reader w)))"
    using loop_ok_outfile [OF ok(4)] st by (simp add: after_header_def)
  have "length (outfile st) + processed (after_header p)
        = length (outfile (after_header p)) + processed st"
    using loop_counter [of w "total_of w" 0 "reader w" "after_header p"] st by simp
  then have c: "processed st = length (filter (\<lambda>r. 8 \<le> length r) (delivered (reader w)))"
    using o by (simp add: after_header_def)
  show ?thesis
    using st o c convert_unfold [OF ok(1,2,3), of p] by simp
qed

lemma convert_failure:
  assumes "\<not> no_io_failure w"
  shows "returned (convert_to_wigle_csv w p) = None \<and>
     (\<exists>e. last (printed (convert_to_wigle_csv w p)) = ErrorMsg e \<and>
          (open_input w = Some e \<or> open_output w = Some e \<or> Inl e \<in> set (reader w) \<or>
           (\<exists>k. writerow_raises w k = Some e)))"
proof (cases "open_input w")
  case (Some e)
  then show ?thesis by (simp add: convert_to_wigle_csv_def handler_def Let_def)
next
  case oi: None
  show ?thesis
  proof (cases "open_output w")
    case (Some e)
    then show ?thesis using oi by (simp add: convert_to_wigle_csv_def handler_def Let_def)
  next
    case oo: None
    show ?thesis
    proof (cases "writerow_raises w 0")
      case (Some e)
      then show ?thesis
        using oi oo by (auto simp: convert_to_wigle_csv_def handler_def writerow_def Let_def)
    next
      case hd: None
      let ?l = "loop w (total_of w) 0 (reader w) (after_header p)"
      have "fst ?l \<noteq> None"
        using assms oi oo hd no_io_failure_loop [of w "total_of w" p] by simp
      then obtain e st where l: "?l = (Some e, st)" by (cases ?l) auto
      then have "Inl e \<in> set (reader w) \<or> (\<exists>k. writerow_raises w k = Some e)"
        using loop_cause [of w "total_of w" 0 "reader w" "after_header p" e] by simp
      then show ?thesis
        using l convert_unfold [OF oi oo hd, of p] by (auto simp: handler_def)
    qed
  qed
qed


lemma convert_success_fields:
  assumes "no_io_failure w"
  shows "returned (convert_to_wigle_csv w p) = Some (output_file p)"
    and "output_content (convert_to_wigle_csv w p) =
           Some (HEADER # map (take 8) (filter (\<lambda>r. 8 \<le> length r) (delivered (reader w))))"
    and "\<exists>ps. printed (convert_to_wigle_csv w p) =
           Starting p (output_file p) # ps @
             [ClearLine,
              Summary (length (filter (\<lambda>r. 8 \<le> length r) (delivered (reader w))))
                (final_pct w (total_of w) (length (reader w)))] \<and>
           (\<forall>m\<in>set ps. \<exists>n pct. m = Progress n pct)"
proof -
  obtain st where l: "loop w (total_of w) 0 (reader w) (after_header p) = (None, st)"
    and o: "outfile st =
              HEADER # map (take 8) (filter (\<lambda>r. 8 \<le> length r) (delivered (reader w)))"
    and c: "processed st = length (filter (\<lambda>r. 8 \<le> length r) (delivered (reader w)))"
    and r: "convert_to_wigle_csv w p =
       \<lparr>returned = Some (output_file p), output_content = Some (outfile st),
        printed = stdout st @
          [ClearLine,
           Summary (processed st) (final_pct w (total_of w) (length (reader w)))]\<rparr>"
    using convert_success [OF assms, of p] by blast
  show "returned (convert_to_wigle_csv w p) = Some (output_file p)"
    by (simp add: r)
  show "output_content (convert_to_wigle_csv w p) =
           Some (HEADER # map (take 8) (filter (\<lambda>r. 8 \<le> length r) (delivered (reader w))))"
    by (simp add: r o)
  obtain ps where ps: "stdout st = stdout (after_header p) @ ps"
    "\<forall>m\<in>set ps. \<exists>n pct. m = Progress n pct"
    using loop_stdout [of w "total_of w" 0 "reader w" "after_header p"] l by auto
  show "\<exists>ps. printed (convert_to_wigle_csv w p) =
           Starting p (output_file p) # ps @
             [ClearLine,
              Summary (length (filter (\<lambda>r. 8 \<le> length r) (delivered (reader w))))
                (final_pct w (total_of w) (length (reader w)))] \<and>
           (\<forall>m\<in>set ps. \<exists>n pct. m = Progress n pct)"
    using ps by (intro exI [of _ ps]) (simp add: r c after_header_def)
qed

lemma demo_ok: "no_io_failure demo_world"
  by (simp add: no_io_failure_def demo_world_def writes_ok_def list_all_map_Inr list_all_iff)

subsection \<open>The claims\<close>

text \<open>
  Claim C1. When no operation of the pass raises and the input parses into the records
  \<open>rs\<close>, of which \<open>M\<close> have at least eight fields, the call returns the output path and
  the output file holds the header record followed by exactly \<open>M\<close> data records; when
  every record is short (or there is none) the file holds the header alone; and no error
  message is printed, so short records raise nothing.
\<close>

theorem header_plus_valid_records:
  assumes "no_io_failure w" "reader w = map Inr rs"
  shows "returned (convert_to_wigle_csv w p) = Some (output_file p)
     \<and> (\<exists>data. output_content (convert_to_wigle_csv w p) = Some (HEADER # data)
            \<and> length data = length (filter (\<lambda>r. 8 \<le> length r) rs))
     \<and> ((\<forall>r\<in>set rs. length r < 8)
          \<longrightarrow> output_content (convert_to_wigle_csv w p) = Some [HEADER])
     \<and> (\<forall>e. ErrorMsg e \<notin> set (printed (convert_to_wigle_csv w p)))"
proof -
  have d: "delivered (reader w) = rs"
    using assms(2) by (simp add: delivered_map_Inr)
  note f = convert_success_fields [OF assms(1), of p, unfolded d]
  have short: "(\<forall>r\<in>set rs. length r < 8) \<longrightarrow> filter (\<lambda>r. 8 \<le> length r) rs = []"
    by (auto simp: filter_empty_conv)
  have noerr: "\<forall>e. ErrorMsg e \<notin> set (printed (convert_to_wigle_csv w p))"
    using f(3) by auto
  show ?thesis
    using f(1,2) short noerr by simp
qed

theorem header_plus_valid_records_witness:
  "no_io_failure demo_world \<and> reader demo_world = map Inr demo_rows
   \<and> length demo_rows = 3
   \<and> length (filter (\<lambda>r. 8 \<le> length r) demo_rows) = 2
   \<and> returned (convert_to_wigle_csv demo_world ''capture.log'') = Some ''capture.wigle.csv''
   \<and> map length (the (output_content (convert_to_wigle_csv demo_world ''capture.log'')))
       = [8, 8, 8]"
proof -
  have r: "reader demo_world = map Inr demo_rows" by (simp add: demo_world_def)
  have o: "output_file ''capture.log'' = ''capture.wigle.csv''" by code_simp
  have f: "length (filter (\<lambda>r. 8 \<le> length r) demo_rows) = 2" "length demo_rows = 3"
    by (simp_all add: demo_rows_def)
  have "map length (the (output_content (convert_to_wigle_csv demo_world ''capture.log'')))
        = [8, 8, 8]"
    by code_simp
  then show ?thesis
    using header_plus_valid_records [OF demo_ok r, of "''capture.log''"] demo_ok r o f
    by simp
qed

text \<open>
  Claim C2. In such a run the data records of the output are, in the order of the input,
  the records of at least eight fields cut to their first eight fields: the \<open>j\<close>-th data
  record has exactly eight fields, and its \<open>i\<close>-th field is the \<open>i\<close>-th field of the
  \<open>j\<close>-th input record of at least eight fields. Fields after the eighth are dropped.
\<close>

theorem first_eight_fields_in_order:
  assumes "no_io_failure w" "reader w = map Inr rs"
  shows "\<exists>data. output_content (convert_to_wigle_csv w p) = Some (HEADER # data)
     \<and> data = map (take 8) (filter (\<lambda>r. 8 \<le> length r) rs)
     \<and> (\<forall>j<length data. length (data ! j) = 8
            \<and> (\<forall>i<8. data ! j ! i = filter (\<lambda>r. 8 \<le> length r) rs ! j ! i))"
proof -
  let ?valid = "filter (\<lambda>r. 8 \<le> length r) rs"
  have d: "delivered (reader w) = rs"
    using assms(2) by (simp add: delivered_map_Inr)
  note f = convert_success_fields [OF assms(1), of p, unfolded d]
  have "\<forall>j<length ?valid. 8 \<le> length (?valid ! j)"
    using nth_mem [of _ ?valid] by fastforce
  then have "\<forall>j<length (map (take 8) ?valid). length (map (take 8) ?valid ! j) = 8
            \<and> (\<forall>i<8. map (take 8) ?valid ! j ! i = ?valid ! j ! i)"
    by simp
  then show ?thesis
    using f(2) by simp
qed

theorem first_eight_fields_in_order_witness:
  "no_io_failure demo_world \<and> reader demo_world = map Inr demo_rows
   \<and> output_content (convert_to_wigle_csv demo_world ''capture.log'') =
       Some [HEADER,
             [''AA:BB:CC:DD:EE:FF'', ''MyWifi'', ''WPA2'', ''2023-01-01 10:00:00'', ''6'',
              ''-50'', ''12.34'', ''56.78''],
             [''11:22:33:44:55:66'', ''Cafe, upstairs'', ''WEP'', ''2023-01-02 11:30:00'',
              ''11'', ''-71'', ''48.85'', ''2.35'']]"
proof -
  have r: "reader demo_world = map Inr demo_rows" by (simp add: demo_world_def)
  have "map (take 8) (filter (\<lambda>r. 8 \<le> length r) demo_rows) =
          [[''AA:BB:CC:DD:EE:FF'', ''MyWifi'', ''WPA2'', ''2023-01-01 10:00:00'', ''6'',
              ''-50'', ''12.34'', ''56.78''],
             [''11:22:33:44:55:66'', ''Cafe, upstairs'', ''WEP'', ''2023-01-02 11:30:00'',
              ''11'', ''-71'', ''48.85'', ''2.35'']]"
    by (simp add: demo_rows_def)
  then show ?thesis
    using first_eight_fields_in_order [OF demo_ok r, of "''capture.log''"] demo_ok r
    by auto
qed

text \<open>
  Claim C3. Whenever the call opened the output file, the first record of the file is the
  header \<^verbatim>\<open>MAC, SSID, AuthMode, FirstSeen, Channel, RSSI, CurrentLatitude,
  CurrentLongitude\<close>, a single record of these eight field names; the only exception is
  a file left empty because writing the header itself raised.
\<close>

theorem header_record_first:
  assumes "output_content (convert_to_wigle_csv w p) = Some rows"
  shows "if writerow_raises w 0 = None
    then take 1 rows = [[''MAC'', ''SSID'', ''AuthMode'', ''FirstSeen'', ''Channel'', ''RSSI'',
                         ''CurrentLatitude'', ''CurrentLongitude'']]
    else rows = []"
proof (cases "open_input w")
  case (Some e)
  then show ?thesis
    using assms by (simp add: convert_to_wigle_csv_def handler_def Let_def)
next
  case oi: None
  show ?thesis
  proof (cases "open_output w")
    case (Some e)
    then show ?thesis
      using assms oi by (simp add: convert_to_wigle_csv_def handler_def Let_def)
  next
    case oo: None
    show ?thesis
    proof (cases "writerow_raises w 0")
      case (Some e)
      then show ?thesis
        using assms oi oo
        by (auto simp: convert_to_wigle_csv_def handler_def writerow_def Let_def)
    next
      case hd: None
      let ?l = "loop w (total_of w) 0 (reader w) (after_header p)"
      obtain n where "outfile (snd ?l) = outfile (after_header p) @
          map (take 8) (take n (filter (\<lambda>r. 8 \<le> length r) (delivered (reader w))))"
        using loop_outfile [of w "total_of w" 0 "reader w" "after_header p"] by blast
      then have t: "take 1 (outfile (snd ?l)) = [HEADER]"
        by (simp add: after_header_def)
      have "rows = outfile (snd ?l)"
        using assms convert_unfold [OF oi oo hd, of p]
        by (cases ?l) (auto simp: handler_def split: option.splits)
      then show ?thesis
        using t hd by (simp add: HEADER_def)
    qed
  qed
qed

theorem header_record_first_witness:
  "output_content (convert_to_wigle_csv demo_world ''capture.log'') \<noteq> None
   \<and> writerow_raises demo_world 0 = None
   \<and> take 1 (the (output_content (convert_to_wigle_csv demo_world ''capture.log''))) =
       [[''MAC'', ''SSID'', ''AuthMode'', ''FirstSeen'', ''Channel'', ''RSSI'',
         ''CurrentLatitude'', ''CurrentLongitude'']]"
proof -
  have h: "writerow_raises demo_world 0 = None" by (simp add: demo_world_def)
  obtain rows where
    r: "output_content (convert_to_wigle_csv demo_world ''capture.log'') = Some rows"
    using convert_success_fields(2) [OF demo_ok, of "''capture.log''"] by blast
  show ?thesis
    using header_record_first [OF r] h r by simp
qed





text \<open>
  Claim C9. Two runs in which nothing raises and the reader delivers the same items (the
  same input file) leave the same records in the output file, hence the same bytes for
  any formatting of a record, whatever the size query and the position queries answer
  in either run.
\<close>

theorem same_input_same_output:
  assumes "no_io_failure w1" "no_io_failure w2" "reader w1 = reader w2"
  shows "output_content (convert_to_wigle_csv w1 p1) = output_content (convert_to_wigle_csv w2 p2)
     \<and> output_content (convert_to_wigle_csv w1 p1) \<noteq> None
     \<and> map_option (file_bytes render) (output_content (convert_to_wigle_csv w1 p1)) =
         map_option (file_bytes render) (output_content (convert_to_wigle_csv w2 p2))"
  using convert_success_fields(2) [OF assms(1), of p1]
    convert_success_fields(2) [OF assms(2), of p2] assms(3)
  by simp

lemma blind_ok: "no_io_failure blind_world"
  by (simp add: no_io_failure_def blind_world_def demo_world_def writes_ok_def
        list_all_map_Inr list_all_iff)

theorem same_input_same_output_witness:
  "no_io_failure demo_world \<and> no_io_failure blind_world
   \<and> reader demo_world = reader blind_world
   \<and> getsize demo_world \<noteq> getsize blind_world
   \<and> output_content (convert_to_wigle_csv demo_world ''capture.log'') =
       output_content (convert_to_wigle_csv blind_world ''capture.log'')
   \<and> output_content (convert_to_wigle_csv demo_world ''capture.log'') \<noteq> None"
proof -
  have r: "reader demo_world = reader blind_world"
    by (simp add: blind_world_def)
  have g: "getsize demo_world \<noteq> getsize blind_world"
    by (simp add: blind_world_def demo_world_def)
  note t = same_input_same_output
      [OF demo_ok blind_ok r, of "''capture.log''" "''capture.log''" concat]
  have e: "output_content (convert_to_wigle_csv demo_world ''capture.log'') =
       output_content (convert_to_wigle_csv blind_world ''capture.log'')"
    using t by (rule conjunct1)
  have n: "output_content (convert_to_wigle_csv demo_world ''capture.log'') \<noteq> None"
    using t by blast
  from demo_ok blind_ok r g e n show ?thesis
    by (intro conjI)
qed

text \<open>
  Claim C10. The counter \<^verbatim>\<open>processed\<close> starts at 0; after any number \<open>k\<close> of items
  of the input, the file holds the header and exactly \<^verbatim>\<open>processed\<close> data records; one
  pass of the loop body leaves the state unchanged for a short record, and for a record
  of at least eight fields either raises with the state unchanged or appends one record
  and adds one to the counter; and on success the final summary reports the number of
  data records in the output file.
\<close>

theorem processed_counts_written_rows:
  "processed (after_header p) = 0
   \<and> length (outfile (snd (loop w tb 0 (take k (reader w)) (after_header p)))) =
       Suc (processed (snd (loop w tb 0 (take k (reader w)) (after_header p))))
   \<and> (length r < 8 \<longrightarrow> process_row w tb i r st = (None, st))
   \<and> (8 \<le> length r \<longrightarrow>
        (\<exists>e. process_row w tb i r st = (Some e, st)) \<or>
        (\<exists>st'. process_row w tb i r st = (None, st') \<and>
               processed st' = Suc (processed st) \<and>
               outfile st' = outfile st @ [take 8 r]))
   \<and> (returned (convert_to_wigle_csv w p) \<noteq> None \<longrightarrow>
        (\<exists>data pct. output_content (convert_to_wigle_csv w p) = Some (HEADER # data) \<and>
                    last (printed (convert_to_wigle_csv w p)) = Summary (length data) pct))"
proof (intro conjI impI)
  show "processed (after_header p) = 0"
    by (simp add: after_header_def)
  show "length (outfile (snd (loop w tb 0 (take k (reader w)) (after_header p)))) =
       Suc (processed (snd (loop w tb 0 (take k (reader w)) (after_header p))))"
    using loop_counter [of w tb 0 "take k (reader w)" "after_header p"]
    by (simp add: after_header_def)
  show "process_row w tb i r st = (None, st)" if "length r < 8"
    using that by (rule process_row_short)
  show "(\<exists>e. process_row w tb i r st = (Some e, st)) \<or>
        (\<exists>st'. process_row w tb i r st = (None, st') \<and>
               processed st' = Suc (processed st) \<and>
               outfile st' = outfile st @ [take 8 r])" if "8 \<le> length r"
  proof (cases "writerow_raises w (length (outfile st))")
    case None
    then show ?thesis using process_row_written [OF that None, of tb i] by blast
  next
    case (Some e)
    then show ?thesis using process_row_raises [OF that Some, of tb i] by blast
  qed
  show "\<exists>data pct. output_content (convert_to_wigle_csv w p) = Some (HEADER # data) \<and>
                    last (printed (convert_to_wigle_csv w p)) = Summary (length data) pct"
    if "returned (convert_to_wigle_csv w p) \<noteq> None"
  proof -
    have ok: "no_io_failure w"
    proof (rule ccontr)
      assume "\<not> no_io_failure w"
      then have "returned (convert_to_wigle_csv w p) = None"
        using convert_failure [of w p] by simp
      with that show False by simp
    qed
    obtain ps where "printed (convert_to_wigle_csv w p) =
           Starting p (output_file p) # ps @
             [ClearLine,
              Summary (length (filter (\<lambda>r. 8 \<le> length r) (delivered (reader w))))
                (final_pct w (total_of w) (length (reader w)))]"
      using convert_success_fields(3) [OF ok, of p] by blast
    then have "last (printed (convert_to_wigle_csv w p)) =
        Summary (length (map (take 8) (filter (\<lambda>r. 8 \<le> length r) (delivered (reader w)))))
          (final_pct w (total_of w) (length (reader w)))"
      by simp
    then show ?thesis
      using convert_success_fields(2) [OF ok, of p] by blast
  qed
qed

theorem processed_counts_written_rows_witness:
  "returned (convert_to_wigle_csv demo_world ''capture.log'') \<noteq> None
   \<and> length (the (output_content (convert_to_wigle_csv demo_world ''capture.log''))) = 3
   \<and> last (printed (convert_to_wigle_csv demo_world ''capture.log'')) = Summary 2 90
   \<and> processed (snd (loop demo_world (Some 200) 0 (take 2 (reader demo_world))
                      (after_header ''capture.log''))) = 1"
proof -
  have r: "returned (convert_to_wigle_csv demo_world ''capture.log'') \<noteq> None"
    using convert_success_fields(1) [OF demo_ok, of "''capture.log''"] by simp
  have l: "last (printed (convert_to_wigle_csv demo_world ''capture.log'')) = Summary 2 90"
    by code_simp
  have o: "length (the (output_content (convert_to_wigle_csv demo_world ''capture.log''))) = 3"
    by code_simp
  have "length (outfile (snd (loop demo_world (Some 200) 0 (take 2 (reader demo_world))
                      (after_header ''capture.log'')))) = 2"
    by code_simp
  then show ?thesis
    using processed_counts_written_rows
      [of "''capture.log''" demo_world "Some 200" 2] r l o
    by simp
qed

subsection \<open>Progress updates\<close>














end
